theory Spec2Isabelle
  imports Main "HOL-Library.Sublist"
begin

section \<open>Data model of fantasy_football_tracker.py\<close>

text \<open>
  Python dictionaries keep insertion order and have unique keys. They are modelled as
  association lists; a list stands for a dictionary when its keys are distinct, and that
  is stated as a hypothesis wherever a result depends on it. Python integers are
  unbounded, hence \<open>int\<close>. Manager names are strings.

  The module-level globals (\<open>PHASES\<close>, \<open>POINT_CORRECTIONS\<close>, \<open>manager_squads\<close>,
  \<open>gameweek_data\<close>, \<open>current_gameweek\<close>, \<open>previous_standings\<close>) are explicit
  arguments of the functions that read them. Console output is modelled only where a
  property speaks about a diagnostic (\<open>calculate_recent_gameweek_points\<close>,
  \<open>load_previous_standings\<close>); the debug prints of the aggregation loops are left out.
\<close>

type_synonym ('k, 'v) dict = "('k \<times> 'v) list"

text \<open>\<open>manager_squads\<close>: manager \<rightarrow> phase \<rightarrow> list of player ids.\<close>
type_synonym squads = "(string, (int, int list) dict) dict"

text \<open>\<open>gameweek_data\<close>: gameweek \<rightarrow> player id \<rightarrow> points.\<close>
type_synonym gw_data = "(int, (int, int) dict) dict"

text \<open>\<open>PHASES\<close>: phase \<rightarrow> the gameweeks of its \<open>range\<close>, in order.\<close>
type_synonym phase_table = "(int, int list) dict"

text \<open>\<open>POINT_CORRECTIONS\<close>: tuples (player_id, phase, adjustment).\<close>
type_synonym corrections = "(int \<times> int \<times> int) list"

text \<open>
  An entry of \<open>manager_points\<close> is the dictionary \<open>{'total': t, 'phase_1': p1, ...}\<close>.
  Every site that creates one starts from \<open>{'total': 0}\<close>, so the key \<open>'total'\<close> is a
  field and the \<open>'phase_<k>'\<close> keys form a dictionary indexed by \<open>k\<close>.
\<close>
record manager_score =
  total :: int
  phase_scores :: "(int, int) dict"

type_synonym manager_points = "(string, manager_score) dict"
type_synonym phase_points = "(string, (int, int) dict) dict"

text \<open>The snapshot \<open>{"gameweek": g, "standings": {manager: position}}\<close>.\<close>
record snapshot =
  gameweek :: int
  standings :: "(string, int) dict"

datatype error = KeyError_phase int | KeyError_manager string


datatype diagnostic =
    Could_not_determine_phase int
  | Player_has_no_points int int
  | Standings_file_corrupted

definition PHASES :: phase_table where
  "PHASES = [(1, [1..11]), (2, [12..20]), (3, [21..24]), (4, [25..29]), (5, [30..38])]"

definition POINT_CORRECTIONS :: corrections where
  "POINT_CORRECTIONS = [(218, 4, 8), (324, 3, -1), (450, 4, 1)]"

subsection \<open>Dictionary operations\<close>

text \<open>\<open>d[k] = v\<close>: overwrite in place, or append a new key at the end.\<close>
fun dict_set :: "'k \<Rightarrow> 'v \<Rightarrow> ('k, 'v) dict \<Rightarrow> ('k, 'v) dict" where
  "dict_set k v [] = [(k, v)]"
| "dict_set k v ((k', v') # d) =
     (if k' = k then (k, v) # d else (k', v') # dict_set k v d)"

text \<open>
  \<open>d[k] = f(d[k])\<close> on a key that the code has stored before (every use below follows
  a \<open>dict_set\<close> of the same key, or tests membership first).
\<close>
fun dict_modify :: "'k \<Rightarrow> ('v \<Rightarrow> 'v) \<Rightarrow> ('k, 'v) dict \<Rightarrow> ('k, 'v) dict" where
  "dict_modify k f [] = []"
| "dict_modify k f ((k', v') # d) =
     (if k' = k then (k, f v') # d else (k', v') # dict_modify k f d)"

text \<open>A loop whose body may raise: the first error ends it.\<close>
fun fold_err :: "('a \<Rightarrow> 's \<Rightarrow> error + 's) \<Rightarrow> 'a list \<Rightarrow> 's \<Rightarrow> error + 's" where
  "fold_err f [] s = Inr s"
| "fold_err f (x # xs) s = (case f x s of Inl e \<Rightarrow> Inl e | Inr s' \<Rightarrow> fold_err f xs s')"

text \<open>\<open>enumerate(xs, n)\<close>.\<close>
fun enumerate_from :: "int \<Rightarrow> 'a list \<Rightarrow> (int \<times> 'a) list" where
  "enumerate_from n [] = []"
| "enumerate_from n (x # xs) = (n, x) # enumerate_from (n + 1) xs"

section \<open>Score aggregator: calculate_manager_points\<close>

text \<open>
  The innermost loop: \<open>for player_id in player_ids: if player_id in gameweek_data[gw]:
  gw_points += gameweek_data[gw][player_id]\<close>.
\<close>
fun player_loop :: "(int, int) dict \<Rightarrow> int list \<Rightarrow> int \<Rightarrow> int" where
  "player_loop scores [] acc = acc"
| "player_loop scores (player_id # player_ids) acc =
     player_loop scores player_ids
       (case map_of scores player_id of Some pts \<Rightarrow> acc + pts | None \<Rightarrow> acc)"

record agg_state =
  st_manager_points :: manager_points
  st_phase_points :: phase_points
  highest_gameweek_manager :: "string option"
  highest_gameweek_points :: int

text \<open>Body of \<open>for gw in PHASES[phase_num]\<close>.\<close>
definition gameweek_step ::
  "gw_data \<Rightarrow> int \<Rightarrow> string \<Rightarrow> int \<Rightarrow> int list \<Rightarrow> int \<Rightarrow> agg_state \<Rightarrow> agg_state" where
  "gameweek_step gameweek_data current_gameweek manager phase_num player_ids gw st =
     (case map_of gameweek_data gw of
        None \<Rightarrow> st
      | Some scores \<Rightarrow>
          let gw_points = player_loop scores player_ids 0;
              st' = st\<lparr>st_phase_points :=
                      dict_modify manager (dict_modify phase_num (\<lambda>v. v + gw_points))
                        (st_phase_points st)\<rparr>
          in if gw = current_gameweek \<and> gw_points > highest_gameweek_points st'
             then st'\<lparr>highest_gameweek_points := gw_points,
                      highest_gameweek_manager := Some manager\<rparr>
             else st')"

text \<open>Body of \<open>for phase_num, player_ids in phases.items()\<close>; \<open>PHASES[phase_num]\<close> may raise.\<close>
definition phase_step ::
  "phase_table \<Rightarrow> gw_data \<Rightarrow> int \<Rightarrow> string \<Rightarrow> int \<times> int list \<Rightarrow> agg_state \<Rightarrow> error + agg_state" where
  "phase_step phases_tbl gameweek_data current_gameweek manager entry st =
     (case entry of (phase_num, player_ids) \<Rightarrow>
        let st0 = st\<lparr>st_phase_points :=
                    dict_modify manager (dict_set phase_num 0) (st_phase_points st)\<rparr>
        in case map_of phases_tbl phase_num of
             None \<Rightarrow> Inl (KeyError_phase phase_num)
           | Some gws \<Rightarrow>
               Inr (fold (gameweek_step gameweek_data current_gameweek manager phase_num player_ids)
                      gws st0))"

text \<open>Body of \<open>for manager, phases in manager_squads.items()\<close>.\<close>
definition manager_step ::
  "phase_table \<Rightarrow> gw_data \<Rightarrow> int \<Rightarrow> string \<times> (int, int list) dict \<Rightarrow> agg_state \<Rightarrow> error + agg_state" where
  "manager_step phases_tbl gameweek_data current_gameweek entry st =
     (case entry of (manager, phases) \<Rightarrow>
        fold_err (phase_step phases_tbl gameweek_data current_gameweek manager) phases
          (st\<lparr>st_manager_points :=
                dict_set manager \<lparr>total = 0, phase_scores = []\<rparr> (st_manager_points st),
              st_phase_points := dict_set manager [] (st_phase_points st)\<rparr>))"

text \<open>\<open>phase in phases and player_id in phases[phase]\<close>.\<close>
definition holds_player :: "(int, int list) dict \<Rightarrow> int \<Rightarrow> int \<Rightarrow> bool" where
  "holds_player phases phase player_id =
     (case map_of phases phase of None \<Rightarrow> False | Some ids \<Rightarrow> player_id \<in> set ids)"

text \<open>Body of \<open>for player_id, phase, adjustment in POINT_CORRECTIONS\<close>.\<close>
definition correction_step :: "squads \<Rightarrow> int \<times> int \<times> int \<Rightarrow> phase_points \<Rightarrow> phase_points" where
  "correction_step manager_squads c pp =
     (case c of (player_id, phase, adjustment) \<Rightarrow>
        fold (\<lambda>(manager, phases) pp.
                if holds_player phases phase player_id
                then dict_modify manager (dict_modify phase (\<lambda>v. v + adjustment)) pp
                else pp)
          manager_squads pp)"

text \<open>Body of \<open>for manager, phases in phase_points.items()\<close> (the totals).\<close>
definition total_step :: "string \<times> (int, int) dict \<Rightarrow> manager_points \<Rightarrow> manager_points" where
  "total_step entry mp =
     (case entry of (manager, phases) \<Rightarrow>
        dict_modify manager
          (\<lambda>s. fold (\<lambda>(phase, points) s. s\<lparr>phase_scores := dict_set phase points (phase_scores s)\<rparr>)
                 phases (s\<lparr>total := sum_list (map snd phases)\<rparr>))
          mp)"

definition calculate_manager_points ::
  "phase_table \<Rightarrow> corrections \<Rightarrow> squads \<Rightarrow> gw_data \<Rightarrow> int \<Rightarrow>
   error + (manager_points \<times> phase_points \<times> string option \<times> int)" where
  "calculate_manager_points phases_tbl point_corrections manager_squads gameweek_data current_gameweek =
     (if manager_squads = [] then Inr ([], [], None, 0)
      else if gameweek_data = [] then Inr ([], [], None, 0)
      else
        case fold_err (manager_step phases_tbl gameweek_data current_gameweek) manager_squads
               \<lparr>st_manager_points = [], st_phase_points = [],
                highest_gameweek_manager = None, highest_gameweek_points = 0\<rparr> of
          Inl e \<Rightarrow> Inl e
        | Inr st \<Rightarrow>
            let pp = fold (correction_step manager_squads) point_corrections (st_phase_points st);
                mp = fold total_step pp (st_manager_points st)
            in Inr (mp, pp, highest_gameweek_manager st, highest_gameweek_points st))"

section \<open>Cutoff variant: calculate_points_up_to_gameweek\<close>

text \<open>
  \<open>for gw in [gw for gw in PHASES[phase_num] if gw <= gameweek]: if gw in gameweek_data:
  for player_id in player_ids: ...\<close>, accumulating into the local \<open>phase_points\<close>.
\<close>
definition cutoff_gameweek_step :: "gw_data \<Rightarrow> int list \<Rightarrow> int \<Rightarrow> int \<Rightarrow> int" where
  "cutoff_gameweek_step gameweek_data player_ids gw acc =
     (case map_of gameweek_data gw of
        None \<Rightarrow> acc
      | Some scores \<Rightarrow> player_loop scores player_ids acc)"

text \<open>
  \<open>for player_id, phase, adjustment in POINT_CORRECTIONS: if phase == phase_num and
  player_id in player_ids: phase_points += adjustment\<close>.
\<close>
definition cutoff_correction_step :: "int \<Rightarrow> int list \<Rightarrow> int \<times> int \<times> int \<Rightarrow> int \<Rightarrow> int" where
  "cutoff_correction_step phase_num player_ids c acc =
     (case c of (player_id, phase, adjustment) \<Rightarrow>
        if phase = phase_num \<and> player_id \<in> set player_ids then acc + adjustment else acc)"

text \<open>The value of the local \<open>phase_points\<close> at the end of one phase's body.\<close>
definition cutoff_phase_value ::
  "corrections \<Rightarrow> gw_data \<Rightarrow> int \<Rightarrow> int \<Rightarrow> int list \<Rightarrow> int list \<Rightarrow> int" where
  "cutoff_phase_value point_corrections gameweek_data gameweek_limit phase_num player_ids gws =
     fold (cutoff_correction_step phase_num player_ids) point_corrections
       (fold (cutoff_gameweek_step gameweek_data player_ids)
          (filter (\<lambda>gw. gw \<le> gameweek_limit) gws) 0)"

definition cutoff_phase_step ::
  "phase_table \<Rightarrow> corrections \<Rightarrow> gw_data \<Rightarrow> int \<Rightarrow> string \<Rightarrow> int \<times> int list \<Rightarrow>
   manager_points \<Rightarrow> error + manager_points" where
  "cutoff_phase_step phases_tbl point_corrections gameweek_data gameweek_limit manager entry mp =
     (case entry of (phase_num, player_ids) \<Rightarrow>
        (case map_of phases_tbl phase_num of
           None \<Rightarrow> Inl (KeyError_phase phase_num)
         | Some gws \<Rightarrow>
             let phase_pts = cutoff_phase_value point_corrections gameweek_data gameweek_limit
                               phase_num player_ids gws
             in Inr (dict_modify manager
                       (\<lambda>s. s\<lparr>phase_scores := dict_set phase_num phase_pts (phase_scores s),
                               total := total s + phase_pts\<rparr>)
                       mp)))"

definition cutoff_manager_step ::
  "phase_table \<Rightarrow> corrections \<Rightarrow> gw_data \<Rightarrow> int \<Rightarrow> string \<times> (int, int list) dict \<Rightarrow>
   manager_points \<Rightarrow> error + manager_points" where
  "cutoff_manager_step phases_tbl point_corrections gameweek_data gameweek_limit entry mp =
     (case entry of (manager, phases) \<Rightarrow>
        fold_err (cutoff_phase_step phases_tbl point_corrections gameweek_data gameweek_limit manager)
          phases (dict_set manager \<lparr>total = 0, phase_scores = []\<rparr> mp))"

definition calculate_points_up_to_gameweek ::
  "phase_table \<Rightarrow> corrections \<Rightarrow> squads \<Rightarrow> gw_data \<Rightarrow> int \<Rightarrow> error + manager_points" where
  "calculate_points_up_to_gameweek phases_tbl point_corrections manager_squads gameweek_data
       gameweek_limit =
     fold_err (cutoff_manager_step phases_tbl point_corrections gameweek_data gameweek_limit)
       manager_squads []"

section \<open>Standings\<close>

text \<open>
  \<open>sorted(manager_points.items(), key=lambda x: x[1]['total'], reverse=True)\<close>.
  Python's \<open>sorted\<close> is stable, also with \<open>reverse=True\<close>: items with equal keys keep
  their input order. That is a stable ascending sort on the negated key.
\<close>
definition sorted_managers :: "manager_points \<Rightarrow> (string \<times> manager_score) list" where
  "sorted_managers mp = sort_key (\<lambda>x. - total (snd x)) mp"

text \<open>\<open>for position, (manager, _) in enumerate(sorted_managers, 1): d[manager] = position\<close>.\<close>
definition positions_of :: "(string \<times> 'a) list \<Rightarrow> (string, int) dict" where
  "positions_of sorted_items =
     fold (\<lambda>(position, (manager, _)) d. dict_set manager position d)
       (enumerate_from 1 sorted_items) []"

text \<open>The snapshot that \<open>save_current_standings\<close> builds and writes to the standings file.\<close>
definition save_current_standings :: "int \<Rightarrow> manager_points \<Rightarrow> snapshot" where
  "save_current_standings current_gameweek mp =
     \<lparr>gameweek = current_gameweek, standings = positions_of (sorted_managers mp)\<rparr>"

definition calculate_position_changes ::
  "phase_table \<Rightarrow> corrections \<Rightarrow> squads \<Rightarrow> gw_data \<Rightarrow> int \<Rightarrow> error + (snapshot \<times> snapshot)" where
  "calculate_position_changes phases_tbl point_corrections manager_squads gameweek_data current_gw =
     (if current_gw \<le> 1
      then Inr (\<lparr>gameweek = current_gw, standings = []\<rparr>, \<lparr>gameweek = 0, standings = []\<rparr>)
      else
        (case calculate_points_up_to_gameweek phases_tbl point_corrections manager_squads
                gameweek_data current_gw of
           Inl e \<Rightarrow> Inl e
         | Inr current_manager_points \<Rightarrow>
             (case calculate_points_up_to_gameweek phases_tbl point_corrections manager_squads
                     gameweek_data (current_gw - 1) of
                Inl e \<Rightarrow> Inl e
              | Inr previous_manager_points \<Rightarrow>
                  Inr (\<lparr>gameweek = current_gw,
                        standings = positions_of (sorted_managers current_manager_points)\<rparr>,
                       \<lparr>gameweek = current_gw - 1,
                        standings = positions_of (sorted_managers previous_manager_points)\<rparr>))))"

section \<open>Snapshot store: load_previous_standings\<close>




section \<open>Most recent gameweek: calculate_recent_gameweek_points\<close>

text \<open>
  \<open>for phase, gameweeks in PHASES.items(): if current_gameweek in gameweeks:
  current_phase = phase; break\<close>.
\<close>
definition find_current_phase :: "phase_table \<Rightarrow> int \<Rightarrow> int option" where
  "find_current_phase phases_tbl current_gameweek =
     map_option fst (find (\<lambda>(phase, gameweeks). current_gameweek \<in> set gameweeks) phases_tbl)"

text \<open>The player loop of the recent-gameweek query, with its print for a missing score.\<close>
fun recent_player_loop ::
  "gw_data \<Rightarrow> int \<Rightarrow> int list \<Rightarrow> int \<times> diagnostic list \<Rightarrow> int \<times> diagnostic list" where
  "recent_player_loop gameweek_data current_gameweek [] acc = acc"
| "recent_player_loop gameweek_data current_gameweek (player_id # players) acc =
     recent_player_loop gameweek_data current_gameweek players
       (case map_of gameweek_data current_gameweek of
          None \<Rightarrow> (fst acc, snd acc @ [Player_has_no_points player_id current_gameweek])
        | Some scores \<Rightarrow>
            (case map_of scores player_id of
               None \<Rightarrow> (fst acc, snd acc @ [Player_has_no_points player_id current_gameweek])
             | Some pts \<Rightarrow> (fst acc + pts, snd acc)))"

definition recent_correction_step :: "int \<Rightarrow> int list \<Rightarrow> int \<times> int \<times> int \<Rightarrow> int \<Rightarrow> int" where
  "recent_correction_step current_phase players c recent_points =
     (case c of (player_id, phase, adjustment) \<Rightarrow>
        if phase = current_phase \<and> player_id \<in> set players
        then recent_points + adjustment else recent_points)"

definition calculate_recent_gameweek_points ::
  "phase_table \<Rightarrow> corrections \<Rightarrow> squads \<Rightarrow> gw_data \<Rightarrow> int \<Rightarrow> string \<Rightarrow> phase_points \<Rightarrow>
   int \<times> diagnostic list" where
  "calculate_recent_gameweek_points phases_tbl point_corrections manager_squads gameweek_data
       current_gameweek manager pp =
     (if current_gameweek = 0 then (0, [])
      else
        (case find_current_phase phases_tbl current_gameweek of
           None \<Rightarrow> (0, [Could_not_determine_phase current_gameweek])
         | Some current_phase \<Rightarrow>
             if current_phase = 0 \<or>
                current_phase \<notin> fst ` set (case map_of pp manager of None \<Rightarrow> [] | Some d \<Rightarrow> d)
             then (0, [Could_not_determine_phase current_gameweek])
             else
               (case map_of manager_squads manager of
                  None \<Rightarrow> (0, [])
                | Some phases \<Rightarrow>
                    (case map_of phases current_phase of
                       None \<Rightarrow> (0, [])
                     | Some players \<Rightarrow>
                         (case recent_player_loop gameweek_data current_gameweek players (0, []) of
                            (recent_points, diags) \<Rightarrow>
                              (fold (recent_correction_step current_phase players)
                                 point_corrections recent_points, diags))))))"

section \<open>League table: generate_league_table\<close>











section \<open>Choice of the baseline in main\<close>


section \<open>The aggregation in closed form\<close>

text \<open>
  The definitions of this section are not translations of source functions. They state
  in the words of the specification what the loops compute, or name a condition or an
  intermediate step of a proof.
\<close>

text \<open>The score of a player in one gameweek, 0 when the player has no entry.\<close>

definition score_or_zero :: "(int, int) dict \<Rightarrow> int \<Rightarrow> int" where
  "score_or_zero scores player_id = (case map_of scores player_id of None \<Rightarrow> 0 | Some pts \<Rightarrow> pts)"

text \<open>The points of a roster in one gameweek; 0 when the gameweek has no data.\<close>

definition spec_gw_points :: "gw_data \<Rightarrow> int list \<Rightarrow> int \<Rightarrow> int" where
  "spec_gw_points gameweek_data player_ids gw =
     (case map_of gameweek_data gw of
        None \<Rightarrow> 0
      | Some scores \<Rightarrow> sum_list (map (score_or_zero scores) player_ids))"

text \<open>The raw points of a roster over a list of gameweeks.\<close>

definition spec_raw_total :: "gw_data \<Rightarrow> int list \<Rightarrow> int list \<Rightarrow> int" where
  "spec_raw_total gameweek_data player_ids gws =
     sum_list (map (spec_gw_points gameweek_data player_ids) gws)"

text \<open>
  The sum of the adjustments of all entries of the corrections list whose phase is the
  given one and whose player is in the roster: one summand per entry, whatever the
  number of times the roster lists the player.
\<close>

definition spec_adjustment :: "corrections \<Rightarrow> int \<Rightarrow> int list \<Rightarrow> int" where
  "spec_adjustment point_corrections phase_num player_ids =
     sum_list (map (\<lambda>(player_id, phase, adjustment).
                      if phase = phase_num \<and> player_id \<in> set player_ids then adjustment else 0)
                 point_corrections)"

text \<open>The gameweeks of a phase, none for an index that is not in the table.\<close>

definition gameweeks_of :: "phase_table \<Rightarrow> int \<Rightarrow> int list" where
  "gameweeks_of phases_tbl phase_num =
     (case map_of phases_tbl phase_num of None \<Rightarrow> [] | Some gws \<Rightarrow> gws)"

text \<open>
  The per-phase total in the specification's words: the sum over the gameweeks of the
  phase of the roster's scores, a missing score counting 0, plus the matching adjustments.
\<close>

definition spec_phase_total :: "phase_table \<Rightarrow> corrections \<Rightarrow> gw_data \<Rightarrow> int \<Rightarrow> int list \<Rightarrow> int" where
  "spec_phase_total phases_tbl point_corrections gameweek_data phase_num player_ids =
     spec_raw_total gameweek_data player_ids (gameweeks_of phases_tbl phase_num)
     + spec_adjustment point_corrections phase_num player_ids"

text \<open>The same with the gameweeks restricted to those up to the cutoff.\<close>

definition spec_cutoff_total ::
  "phase_table \<Rightarrow> corrections \<Rightarrow> gw_data \<Rightarrow> int \<Rightarrow> int \<Rightarrow> int list \<Rightarrow> int" where
  "spec_cutoff_total phases_tbl point_corrections gameweek_data gameweek_limit phase_num player_ids =
     spec_raw_total gameweek_data player_ids
       (filter (\<lambda>gw. gw \<le> gameweek_limit) (gameweeks_of phases_tbl phase_num))
     + spec_adjustment point_corrections phase_num player_ids"

text \<open>
  The score record of a manager for a given per-phase value: one entry per phase of the
  roster, in roster order, and their sum as the grand total.
\<close>

definition spec_score :: "(int \<Rightarrow> int list \<Rightarrow> int) \<Rightarrow> (int, int list) dict \<Rightarrow> manager_score" where
  "spec_score val phases =
     \<lparr>total = sum_list (map (\<lambda>(phase_num, player_ids). val phase_num player_ids) phases),
      phase_scores = map (\<lambda>(phase_num, player_ids). (phase_num, val phase_num player_ids)) phases\<rparr>"

text \<open>
  A roster list stands for a Python dictionary of dictionaries: manager names are
  distinct, and so are the phase indices of each manager.
\<close>

definition wf_squads :: "squads \<Rightarrow> bool" where
  "wf_squads manager_squads \<longleftrightarrow>
     distinct (map fst manager_squads) \<and>
     (\<forall>(manager, phases) \<in> set manager_squads. distinct (map fst phases))"

text \<open>Every phase index of the roster is a key of the phase table.\<close>

definition phases_known :: "phase_table \<Rightarrow> squads \<Rightarrow> bool" where
  "phases_known phases_tbl manager_squads \<longleftrightarrow>
     (\<forall>(manager, phases) \<in> set manager_squads.
        \<forall>(phase_num, player_ids) \<in> set phases. map_of phases_tbl phase_num \<noteq> None)"

text \<open>The update of a score record by the body of one phase of the cutoff variant.\<close>

definition score_upd :: "(int \<Rightarrow> int list \<Rightarrow> int) \<Rightarrow> int \<times> int list \<Rightarrow> manager_score \<Rightarrow> manager_score" where
  "score_upd val entry s =
     s\<lparr>phase_scores := dict_set (fst entry) (val (fst entry) (snd entry)) (phase_scores s),
       total := total s + val (fst entry) (snd entry)\<rparr>"

text \<open>The \<open>phase_points\<close> dictionary for a given per-phase value.\<close>

definition spec_phase_points :: "(int \<Rightarrow> int list \<Rightarrow> int) \<Rightarrow> squads \<Rightarrow> phase_points" where
  "spec_phase_points val manager_squads =
     map (\<lambda>(manager, phases). (manager, phase_scores (spec_score val phases))) manager_squads"

text \<open>
  The effect of one phase of the main aggregation on a manager's entry of
  \<open>phase_points\<close>: the entry is set to 0 and the raw points are added.
\<close>

definition phase_upd :: "(int \<Rightarrow> int list \<Rightarrow> int) \<Rightarrow> int \<times> int list \<Rightarrow> (int, int) dict \<Rightarrow> (int, int) dict" where
  "phase_upd val entry d =
     dict_modify (fst entry) (\<lambda>v. v + val (fst entry) (snd entry)) (dict_set (fst entry) 0 d)"








section \<open>Concrete inputs\<close>

text \<open>The roster and the scores of the scenario of the specification.\<close>

definition example_squads :: squads where
  "example_squads = [(''Alice'', [(1, [10, 11])])]"

definition example_gameweek_data :: gw_data where
  "example_gameweek_data = [(1, [(10, 5), (11, 3)]), (2, [(10, 2)])]"

definition example_two_squads :: squads where
  "example_two_squads = [(''Alice'', [(4, [218, 218])]), (''Bob'', [(4, [7])])]"

definition example_phase4_data :: gw_data where
  "example_phase4_data = [(25, [(218, 6), (7, 2)])]"

definition example_scores :: manager_points where
  "example_scores =
     [(''Alice'', \<lparr>total = 10, phase_scores = [(1, 10)]\<rparr>),
      (''Bob'', \<lparr>total = 12, phase_scores = [(1, 12)]\<rparr>),
      (''Carol'', \<lparr>total = 10, phase_scores = [(1, 10)]\<rparr>)]"









section \<open>Properties\<close>

subsection \<open>Dictionaries and the innermost sums\<close>

lemma dict_set_append: "k \<notin> fst ` set d \<Longrightarrow> dict_set k v d = d @ [(k, v)]"
  by (induction d) auto

lemma dict_modify_append: "k \<notin> fst ` set d \<Longrightarrow> dict_modify k f (d @ e) = d @ dict_modify k f e"
  by (induction d) auto

lemma dict_modify_comp: "dict_modify k f (dict_modify k g d) = dict_modify k (\<lambda>v. f (g v)) d"
  by (induction d) auto

lemma dict_modify_id: "dict_modify k (\<lambda>v. v) d = d"
  by (induction d) auto

lemma dict_modify_keys: "map fst (dict_modify k f d) = map fst d"
  by (induction d) auto

lemma dict_modify_map:
  "distinct (map fst d) \<Longrightarrow> dict_modify k f d = map (\<lambda>(k', v). (k', if k' = k then f v else v)) d"
proof (induction d)
  case Nil
  then show ?case by simp
next
  case (Cons a d)
  obtain k' v' where a: "a = (k', v')" by (cases a)
  show ?case
  proof (cases "k' = k")
    case True
    with Cons.prems a have "k \<notin> fst ` set d" by auto
    then have "map (\<lambda>(k', v). (k', if k' = k then f v else v)) d = d"
      by (induction d) auto
    with True a show ?thesis by simp
  next
    case False
    with Cons a show ?thesis by simp
  qed
qed

lemma player_loop_sum:
  "player_loop scores player_ids acc = acc + sum_list (map (score_or_zero scores) player_ids)"
  by (induction player_ids arbitrary: acc) (auto simp: score_or_zero_def split: option.splits)

lemma fold_cutoff_gameweek_step:
  "fold (cutoff_gameweek_step gameweek_data player_ids) gws acc =
     acc + spec_raw_total gameweek_data player_ids gws"
  by (induction gws arbitrary: acc)
     (auto simp: cutoff_gameweek_step_def spec_raw_total_def spec_gw_points_def player_loop_sum
           split: option.splits)

lemma fold_cutoff_correction_step:
  "fold (cutoff_correction_step phase_num player_ids) cs acc =
     acc + spec_adjustment cs phase_num player_ids"
  by (induction cs arbitrary: acc)
     (auto simp: cutoff_correction_step_def spec_adjustment_def)

lemma cutoff_phase_value_eq:
  "cutoff_phase_value cs gameweek_data gameweek_limit phase_num player_ids gws =
     spec_raw_total gameweek_data player_ids (filter (\<lambda>gw. gw \<le> gameweek_limit) gws)
     + spec_adjustment cs phase_num player_ids"
  by (simp add: cutoff_phase_value_def fold_cutoff_gameweek_step fold_cutoff_correction_step)

lemma fold_dict_modify:
  "distinct (map fst xs) \<Longrightarrow> distinct (map fst d) \<Longrightarrow>
   fold (\<lambda>(k, a) d. dict_modify k (g k a) d) xs d =
     map (\<lambda>(k, v). (k, case map_of xs k of None \<Rightarrow> v | Some a \<Rightarrow> g k a v)) d"
proof (induction xs arbitrary: d)
  case Nil
  then show ?case by simp
next
  case (Cons x xs)
  obtain k a where x: "x = (k, a)" by (cases x)
  from Cons.prems x have k: "k \<notin> fst ` set xs" and dx: "distinct (map fst xs)" by auto
  have d': "distinct (map fst (dict_modify k (g k a) d))"
    using Cons.prems(2) by (simp add: dict_modify_keys)
  have nk: "map_of xs k = None" using k by (simp add: map_of_eq_None_iff)
  show ?case
    using Cons.IH[OF dx d'] nk
    by (auto simp: x dict_modify_map[OF Cons.prems(2)] o_def case_prod_unfold split: option.splits)
qed

lemma fold_dict_modify_same:
  assumes "distinct (map fst xs)"
  shows "fold (\<lambda>(k, a) d. dict_modify k (g k a) d) xs (map (\<lambda>(k, a). (k, h k a)) xs) =
         map (\<lambda>(k, a). (k, g k a (h k a))) xs"
proof -
  have d: "distinct (map fst (map (\<lambda>(k, a). (k, h k a)) xs))"
    using assms by (simp add: o_def case_prod_unfold)
  have "map (\<lambda>(k, v). (k, case map_of xs k of None \<Rightarrow> v | Some a \<Rightarrow> g k a v)) (map (\<lambda>(k, a). (k, h k a)) xs)
        = map (\<lambda>(k, a). (k, g k a (h k a))) xs"
    using assms by (auto simp: o_def case_prod_unfold)
  then show ?thesis using fold_dict_modify[OF assms d] by simp
qed

subsection \<open>Closed form of calculate_points_up_to_gameweek\<close>

lemma cutoff_phase_step_ok:
  assumes "map_of phases_tbl (fst entry) \<noteq> None"
  shows "cutoff_phase_step phases_tbl cs gameweek_data lim m entry mp =
         Inr (dict_modify m (score_upd (spec_cutoff_total phases_tbl cs gameweek_data lim) entry) mp)"
proof -
  obtain k ids where e: "entry = (k, ids)" by (cases entry)
  from assms e obtain gws where g: "map_of phases_tbl k = Some gws" by auto
  have "(\<lambda>s. s\<lparr>phase_scores := dict_set k (spec_cutoff_total phases_tbl cs gameweek_data lim k ids) (phase_scores s),
               total := total s + spec_cutoff_total phases_tbl cs gameweek_data lim k ids\<rparr>)
        = score_upd (spec_cutoff_total phases_tbl cs gameweek_data lim) (k, ids)"
    by (simp add: score_upd_def fun_eq_iff)
  then show ?thesis
    by (simp add: e g cutoff_phase_step_def cutoff_phase_value_eq spec_cutoff_total_def
        gameweeks_of_def)
qed

lemma fold_err_cutoff_phase_step:
  assumes "\<forall>entry \<in> set phases. map_of phases_tbl (fst entry) \<noteq> None"
  shows "fold_err (cutoff_phase_step phases_tbl cs gameweek_data lim m) phases mp =
         Inr (dict_modify m
                (fold (score_upd (spec_cutoff_total phases_tbl cs gameweek_data lim)) phases) mp)"
  using assms
proof (induction phases arbitrary: mp)
  case Nil
  then show ?case by (simp add: dict_modify_id)
next
  case (Cons entry phases)
  then show ?case by (simp add: cutoff_phase_step_ok dict_modify_comp)
qed

lemma fold_score_upd:
  assumes "distinct (map fst phases)" "fst ` set phases \<inter> fst ` set (phase_scores s) = {}"
  shows "fold (score_upd val) phases s =
         s\<lparr>phase_scores := phase_scores s @ map (\<lambda>(k, ids). (k, val k ids)) phases,
           total := total s + sum_list (map (\<lambda>(k, ids). val k ids) phases)\<rparr>"
  using assms
proof (induction phases arbitrary: s)
  case Nil
  then show ?case by simp
next
  case (Cons entry phases)
  obtain k ids where e: "entry = (k, ids)" by (cases entry)
  from Cons.prems e have k: "k \<notin> fst ` set (phase_scores s)" by auto
  let ?s = "score_upd val (k, ids) s"
  have ps: "phase_scores ?s = phase_scores s @ [(k, val k ids)]"
    using k by (simp add: score_upd_def e dict_set_append)
  have disj: "fst ` set phases \<inter> fst ` set (phase_scores ?s) = {}"
    unfolding ps using Cons.prems e by auto
  have dist: "distinct (map fst phases)" using Cons.prems by simp
  show ?case
    using Cons.IH[OF dist disj] ps
    by (simp add: e) (simp add: score_upd_def)
qed

lemma fold_score_upd_zero:
  assumes "distinct (map fst phases)"
  shows "fold (score_upd val) phases \<lparr>total = 0, phase_scores = []\<rparr> = spec_score val phases"
  using fold_score_upd[OF assms, of "\<lparr>total = 0, phase_scores = []\<rparr>" val]
  by (simp add: spec_score_def)

lemma fold_err_cutoff_manager_step:
  assumes "distinct (map fst manager_squads)"
    and "fst ` set manager_squads \<inter> fst ` set mp = {}"
    and "\<forall>(manager, phases) \<in> set manager_squads. distinct (map fst phases)"
    and "phases_known phases_tbl manager_squads"
  shows "fold_err (cutoff_manager_step phases_tbl cs gameweek_data lim) manager_squads mp =
         Inr (mp @ map (\<lambda>(manager, phases).
                          (manager, spec_score (spec_cutoff_total phases_tbl cs gameweek_data lim) phases))
                     manager_squads)"
  using assms
proof (induction manager_squads arbitrary: mp)
  case Nil
  then show ?case by simp
next
  case (Cons entry manager_squads)
  obtain m phases where e: "entry = (m, phases)" by (cases entry)
  let ?V = "spec_cutoff_total phases_tbl cs gameweek_data lim"
  from Cons.prems e have m: "m \<notin> fst ` set mp" by auto
  from Cons.prems(3) e have dp: "distinct (map fst phases)" by auto
  from Cons.prems(4) e have known: "\<forall>entry \<in> set phases. map_of phases_tbl (fst entry) \<noteq> None"
    by (auto simp: phases_known_def)
  have step: "cutoff_manager_step phases_tbl cs gameweek_data lim entry mp =
              Inr (mp @ [(m, spec_score ?V phases)])"
    using m by (simp add: e cutoff_manager_step_def fold_err_cutoff_phase_step[OF known]
        dict_set_append dict_modify_append fold_score_upd_zero[OF dp])
  have 1: "distinct (map fst manager_squads)" using Cons.prems(1) by simp
  have 2: "fst ` set manager_squads \<inter> fst ` set (mp @ [(m, spec_score ?V phases)]) = {}"
    using Cons.prems(1,2) e by auto
  have 3: "\<forall>(manager, phases) \<in> set manager_squads. distinct (map fst phases)"
    using Cons.prems(3) by simp
  have 4: "phases_known phases_tbl manager_squads"
    using Cons.prems(4) by (simp add: phases_known_def)
  show ?case
    using Cons.IH[OF 1 2 3 4] by (simp add: step[unfolded e] e)
qed

lemma calculate_points_up_to_gameweek_eq:
  assumes "wf_squads manager_squads" "phases_known phases_tbl manager_squads"
  shows "calculate_points_up_to_gameweek phases_tbl cs manager_squads gameweek_data lim =
         Inr (map (\<lambda>(manager, phases).
                     (manager, spec_score (spec_cutoff_total phases_tbl cs gameweek_data lim) phases))
                manager_squads)"
  using assms fold_err_cutoff_manager_step[of manager_squads "[]" phases_tbl cs gameweek_data lim]
  by (simp add: calculate_points_up_to_gameweek_def wf_squads_def)

subsection \<open>The raw points loop of calculate_manager_points\<close>

lemma dict_modify_id_fun: "dict_modify k (\<lambda>v. v) = (\<lambda>d. d)"
  by (simp add: fun_eq_iff dict_modify_id)

lemma dict_modify_comp_fun:
  "(\<lambda>d. dict_modify k f (dict_modify k g d)) = dict_modify k (\<lambda>v. f (g v))"
  by (simp add: fun_eq_iff dict_modify_comp)

lemma gameweek_step_points:
  "st_phase_points (gameweek_step gameweek_data cgw m k ids gw st) =
     dict_modify m (dict_modify k (\<lambda>v. v + spec_gw_points gameweek_data ids gw)) (st_phase_points st)"
  "st_manager_points (gameweek_step gameweek_data cgw m k ids gw st) = st_manager_points st"
  by (auto simp: gameweek_step_def spec_gw_points_def Let_def player_loop_sum
      dict_modify_id_fun dict_modify_id split: option.splits)

lemma fold_gameweek_step_points:
  "st_phase_points (fold (gameweek_step gameweek_data cgw m k ids) gws st) =
     dict_modify m (dict_modify k (\<lambda>v. v + spec_raw_total gameweek_data ids gws)) (st_phase_points st)"
  "st_manager_points (fold (gameweek_step gameweek_data cgw m k ids) gws st) = st_manager_points st"
proof (induction gws arbitrary: st)
  case Nil
  {
    case 1
    show ?case by (simp add: spec_raw_total_def dict_modify_id_fun dict_modify_id)
  next
    case 2
    show ?case by simp
  }
next
  case (Cons gw gws)
  {
    case 1
    show ?case
      by (simp add: Cons.IH gameweek_step_points dict_modify_comp dict_modify_comp_fun
          spec_raw_total_def add.assoc)
  next
    case 2
    show ?case by (simp add: Cons.IH gameweek_step_points)
  }
qed

lemma phase_step_ok:
  assumes "map_of phases_tbl (fst entry) \<noteq> None"
  shows "\<exists>st'. phase_step phases_tbl gameweek_data cgw m entry st = Inr st' \<and>
           st_phase_points st' =
             dict_modify m
               (phase_upd (\<lambda>k ids. spec_raw_total gameweek_data ids (gameweeks_of phases_tbl k)) entry)
               (st_phase_points st) \<and>
           st_manager_points st' = st_manager_points st"
proof -
  obtain k ids where e: "entry = (k, ids)" by (cases entry)
  from assms e obtain gws where g: "map_of phases_tbl k = Some gws" by auto
  have u: "phase_upd (\<lambda>k ids. spec_raw_total gameweek_data ids (gameweeks_of phases_tbl k)) (k, ids)
           = (\<lambda>d. dict_modify k (\<lambda>v. v + spec_raw_total gameweek_data ids gws) (dict_set k 0 d))"
    by (simp add: fun_eq_iff phase_upd_def gameweeks_of_def g)
  show ?thesis
    by (simp add: e g phase_step_def Let_def fold_gameweek_step_points dict_modify_comp u)
qed

lemma fold_err_phase_step:
  assumes "\<forall>entry \<in> set phases. map_of phases_tbl (fst entry) \<noteq> None"
  shows "\<exists>st'. fold_err (phase_step phases_tbl gameweek_data cgw m) phases st = Inr st' \<and>
           st_phase_points st' =
             dict_modify m
               (fold (phase_upd (\<lambda>k ids. spec_raw_total gameweek_data ids (gameweeks_of phases_tbl k)))
                  phases)
               (st_phase_points st) \<and>
           st_manager_points st' = st_manager_points st"
  using assms
proof (induction phases arbitrary: st)
  case Nil
  then show ?case by (simp add: dict_modify_id)
next
  case (Cons entry phases)
  from Cons.prems have a: "map_of phases_tbl (fst entry) \<noteq> None"
    and b: "\<forall>entry \<in> set phases. map_of phases_tbl (fst entry) \<noteq> None" by auto
  from phase_step_ok[OF a, of gameweek_data cgw m st] obtain st1 where
    s1: "phase_step phases_tbl gameweek_data cgw m entry st = Inr st1"
    and p1: "st_phase_points st1 =
             dict_modify m
               (phase_upd (\<lambda>k ids. spec_raw_total gameweek_data ids (gameweeks_of phases_tbl k)) entry)
               (st_phase_points st)"
    and m1: "st_manager_points st1 = st_manager_points st" by blast
  from Cons.IH[OF b, of st1] show ?case
    by (auto simp: s1 p1 m1 dict_modify_comp)
qed

lemma fold_phase_upd:
  assumes "distinct (map fst phases)" "fst ` set phases \<inter> fst ` set d = {}"
  shows "fold (phase_upd val) phases d = d @ map (\<lambda>(k, ids). (k, val k ids)) phases"
  using assms
proof (induction phases arbitrary: d)
  case Nil
  then show ?case by simp
next
  case (Cons entry phases)
  obtain k ids where e: "entry = (k, ids)" by (cases entry)
  from Cons.prems e have k: "k \<notin> fst ` set d" by auto
  have u: "phase_upd val (k, ids) d = d @ [(k, val k ids)]"
    using k by (simp add: phase_upd_def dict_set_append dict_modify_append)
  have disj: "fst ` set phases \<inter> fst ` set (d @ [(k, val k ids)]) = {}"
    using Cons.prems e by auto
  have dist: "distinct (map fst phases)" using Cons.prems by simp
  show ?case using Cons.IH[OF dist disj] by (simp add: e u)
qed

lemma fold_err_manager_step:
  assumes "distinct (map fst manager_squads)"
    and "fst ` set manager_squads \<inter> fst ` set (st_phase_points st) = {}"
    and "fst ` set manager_squads \<inter> fst ` set (st_manager_points st) = {}"
    and "\<forall>(manager, phases) \<in> set manager_squads. distinct (map fst phases)"
    and "phases_known phases_tbl manager_squads"
  shows "\<exists>st'. fold_err (manager_step phases_tbl gameweek_data cgw) manager_squads st = Inr st' \<and>
           st_phase_points st' =
             st_phase_points st @
             spec_phase_points (\<lambda>k ids. spec_raw_total gameweek_data ids (gameweeks_of phases_tbl k))
               manager_squads \<and>
           st_manager_points st' =
             st_manager_points st @
             map (\<lambda>(manager, phases). (manager, \<lparr>total = 0, phase_scores = []\<rparr>)) manager_squads"
  using assms
proof (induction manager_squads arbitrary: st)
  case Nil
  then show ?case by (simp add: spec_phase_points_def)
next
  case (Cons entry manager_squads)
  obtain m phases where e: "entry = (m, phases)" by (cases entry)
  let ?raw = "\<lambda>k ids. spec_raw_total gameweek_data ids (gameweeks_of phases_tbl k)"
  let ?st0 = "st\<lparr>st_manager_points :=
                  dict_set m \<lparr>total = 0, phase_scores = []\<rparr> (st_manager_points st),
                st_phase_points := dict_set m [] (st_phase_points st)\<rparr>"
  from Cons.prems e have mpp: "m \<notin> fst ` set (st_phase_points st)"
    and mmp: "m \<notin> fst ` set (st_manager_points st)" by auto
  from Cons.prems(4) e have dp: "distinct (map fst phases)" by auto
  from Cons.prems(5) e have known: "\<forall>entry \<in> set phases. map_of phases_tbl (fst entry) \<noteq> None"
    by (auto simp: phases_known_def)
  from fold_err_phase_step[OF known, of gameweek_data cgw m ?st0] obtain st1 where
    s1: "manager_step phases_tbl gameweek_data cgw entry st = Inr st1"
    and p1: "st_phase_points st1 = dict_modify m (fold (phase_upd ?raw) phases) (st_phase_points ?st0)"
    and m1: "st_manager_points st1 = st_manager_points ?st0"
    by (auto simp: manager_step_def e)
  have p1': "st_phase_points st1 =
             st_phase_points st @ [(m, map (\<lambda>(k, ids). (k, ?raw k ids)) phases)]"
    using mpp dp by (simp add: p1 dict_set_append dict_modify_append fold_phase_upd)
  have m1': "st_manager_points st1 = st_manager_points st @ [(m, \<lparr>total = 0, phase_scores = []\<rparr>)]"
    using mmp by (simp add: m1 dict_set_append)
  have 1: "distinct (map fst manager_squads)" using Cons.prems(1) by simp
  have 2: "fst ` set manager_squads \<inter> fst ` set (st_phase_points st1) = {}"
    unfolding p1' using Cons.prems(1,2) e by auto
  have 3: "fst ` set manager_squads \<inter> fst ` set (st_manager_points st1) = {}"
    unfolding m1' using Cons.prems(1,3) e by auto
  have 4: "\<forall>(manager, phases) \<in> set manager_squads. distinct (map fst phases)"
    using Cons.prems(4) by simp
  have 5: "phases_known phases_tbl manager_squads"
    using Cons.prems(5) by (simp add: phases_known_def)
  from Cons.IH[OF 1 2 3 4 5] show ?case
    by (auto simp: s1[unfolded e] p1' m1' e spec_phase_points_def spec_score_def)
qed

subsection \<open>Corrections and totals of calculate_manager_points\<close>

lemma holds_player_iff:
  assumes "distinct (map fst phases)"
  shows "holds_player phases K P \<longleftrightarrow> (\<exists>ids. (K, ids) \<in> set phases \<and> P \<in> set ids)"
proof -
  have m: "map_of phases K = Some ids \<longleftrightarrow> (K, ids) \<in> set phases" for ids
    using assms by simp
  show ?thesis
  proof (cases "map_of phases K")
    case None
    then have "\<not> (\<exists>ids. (K, ids) \<in> set phases)" using m by simp
    with None show ?thesis by (simp add: holds_player_def)
  next
    case (Some ids0)
    then have "(K, ids) \<in> set phases \<longleftrightarrow> ids = ids0" for ids using m[of ids] by auto
    with Some show ?thesis by (simp add: holds_player_def)
  qed
qed

lemma correction_step_spec:
  assumes "wf_squads manager_squads"
  shows "correction_step manager_squads (P, K, D) (spec_phase_points val manager_squads) =
         spec_phase_points (\<lambda>k ids. val k ids + (if K = k \<and> P \<in> set ids then D else 0)) manager_squads"
proof -
  let ?g = "\<lambda>(m::string) phases. if holds_player phases K P then dict_modify K (\<lambda>v. v + D) else (\<lambda>d. d)"
  let ?h = "\<lambda>(m::string) phases. map (\<lambda>(k, ids). (k, val k ids)) phases"
  have f: "(\<lambda>(manager, phases) pp.
                if holds_player phases K P
                then dict_modify manager (dict_modify K (\<lambda>v. v + D)) pp
                else pp) = (\<lambda>(k, a) d. dict_modify k (?g k a) d)"
    by (auto simp: fun_eq_iff dict_modify_id_fun dict_modify_id)
  from assms have dm: "distinct (map fst manager_squads)" by (simp add: wf_squads_def)
  have inner: "?g m phases (?h m phases) =
               map (\<lambda>(k, ids). (k, val k ids + (if K = k \<and> P \<in> set ids then D else 0))) phases"
    if mem: "(m, phases) \<in> set manager_squads" for m phases
  proof -
    from assms mem have dp: "distinct (map fst phases)" by (auto simp: wf_squads_def)
    have dh: "distinct (map fst (?h m phases))" using dp by (simp add: o_def case_prod_unfold)
    show ?thesis
    proof (cases "holds_player phases K P")
      case True
      then obtain ids0 where i0: "(K, ids0) \<in> set phases" "P \<in> set ids0"
        using holds_player_iff[OF dp] by blast
      have uniq: "P \<in> set ids" if "(K, ids) \<in> set phases" for ids
      proof -
        from dp that have "map_of phases K = Some ids" by simp
        moreover from dp i0(1) have "map_of phases K = Some ids0" by simp
        ultimately show ?thesis using i0(2) by simp
      qed
      have "map (\<lambda>x. (fst x, if fst x = K then val (fst x) (snd x) + D else val (fst x) (snd x))) phases
            = map (\<lambda>x. (fst x, val (fst x) (snd x) + (if K = fst x \<and> P \<in> set (snd x) then D else 0))) phases"
      proof (rule map_cong[OF refl])
        fix x assume x: "x \<in> set phases"
        obtain k ids where xe: "x = (k, ids)" by (cases x)
        show "(fst x, if fst x = K then val (fst x) (snd x) + D else val (fst x) (snd x))
              = (fst x, val (fst x) (snd x) + (if K = fst x \<and> P \<in> set (snd x) then D else 0))"
          using x uniq[of ids] by (auto simp: xe)
      qed
      then have eq: "map (\<lambda>x. (fst x, if fst x = K then val (fst x) (snd x) + D else val (fst x) (snd x))) phases
            = map (\<lambda>(k, ids). (k, val k ids + (if K = k \<and> P \<in> set ids then D else 0))) phases"
        by (simp add: case_prod_unfold)
      have "?g m phases (?h m phases) = dict_modify K (\<lambda>v. v + D) (?h m phases)"
        using True by simp
      also have "\<dots> = map (\<lambda>(k', v). (k', if k' = K then v + D else v)) (?h m phases)"
        by (rule dict_modify_map[OF dh])
      also have "\<dots> = map (\<lambda>x. (fst x, if fst x = K then val (fst x) (snd x) + D else val (fst x) (snd x))) phases"
        by (simp add: o_def case_prod_unfold)
      finally show ?thesis using eq by simp
    next
      case False
      then have no: "P \<notin> set ids" if "(K, ids) \<in> set phases" for ids
        using holds_player_iff[OF dp] that by blast
      have "map (\<lambda>x. (fst x, val (fst x) (snd x))) phases
            = map (\<lambda>x. (fst x, val (fst x) (snd x) + (if K = fst x \<and> P \<in> set (snd x) then D else 0))) phases"
      proof (rule map_cong[OF refl])
        fix x assume x: "x \<in> set phases"
        obtain k ids where xe: "x = (k, ids)" by (cases x)
        show "(fst x, val (fst x) (snd x))
              = (fst x, val (fst x) (snd x) + (if K = fst x \<and> P \<in> set (snd x) then D else 0))"
          using x no[of ids] by (auto simp: xe)
      qed
      then show ?thesis using False by (simp add: case_prod_unfold)
    qed
  qed
  have "correction_step manager_squads (P, K, D) (spec_phase_points val manager_squads) =
        map (\<lambda>(m, phases). (m, ?g m phases (?h m phases))) manager_squads"
    unfolding correction_step_def spec_phase_points_def spec_score_def
    using fold_dict_modify_same[OF dm, of ?g ?h] by (simp add: f)
  also have "\<dots> = spec_phase_points (\<lambda>k ids. val k ids + (if K = k \<and> P \<in> set ids then D else 0)) manager_squads"
    unfolding spec_phase_points_def spec_score_def using inner by auto
  finally show ?thesis .
qed

lemma fold_correction_step_spec:
  assumes "wf_squads manager_squads"
  shows "fold (correction_step manager_squads) cs (spec_phase_points val manager_squads) =
         spec_phase_points (\<lambda>k ids. val k ids + spec_adjustment cs k ids) manager_squads"
proof (induction cs arbitrary: val)
  case Nil
  then show ?case by (simp add: spec_adjustment_def)
next
  case (Cons c cs)
  obtain P K D where c: "c = (P, K, D)" by (cases c)
  have "(\<lambda>k ids. val k ids + (if K = k \<and> P \<in> set ids then D else 0) + spec_adjustment cs k ids)
        = (\<lambda>k ids. val k ids + spec_adjustment ((P, K, D) # cs) k ids)"
    by (auto simp: fun_eq_iff spec_adjustment_def)
  then show ?case
    by (simp add: c correction_step_spec[OF assms] Cons.IH)
qed

lemma fold_phase_scores_set:
  assumes "distinct (map fst d)" "fst ` set d \<inter> fst ` set (phase_scores s) = {}"
  shows "fold (\<lambda>(phase, points) s. s\<lparr>phase_scores := dict_set phase points (phase_scores s)\<rparr>) d s =
         s\<lparr>phase_scores := phase_scores s @ d\<rparr>"
  using assms
proof (induction d arbitrary: s)
  case Nil
  then show ?case by simp
next
  case (Cons a d)
  obtain k v where a: "a = (k, v)" by (cases a)
  from Cons.prems a have k: "k \<notin> fst ` set (phase_scores s)" by auto
  let ?s = "s\<lparr>phase_scores := phase_scores s @ [(k, v)]\<rparr>"
  have 1: "distinct (map fst d)" using Cons.prems by simp
  have 2: "fst ` set d \<inter> fst ` set (phase_scores ?s) = {}" using Cons.prems a by auto
  show ?case using Cons.IH[OF 1 2] k by (simp add: a dict_set_append)
qed

lemma fold_total_step_spec:
  assumes "wf_squads manager_squads"
  shows "fold total_step (spec_phase_points val manager_squads)
           (map (\<lambda>(manager, phases). (manager, \<lparr>total = 0, phase_scores = []\<rparr>)) manager_squads) =
         map (\<lambda>(manager, phases). (manager, spec_score val phases)) manager_squads"
proof -
  let ?pp = "spec_phase_points val manager_squads"
  let ?g = "\<lambda>(m::string) phases (s::manager_score).
              fold (\<lambda>(phase, points) s. s\<lparr>phase_scores := dict_set phase points (phase_scores s)\<rparr>)
                phases (s\<lparr>total := sum_list (map snd phases)\<rparr>)"
  let ?h = "\<lambda>(m::string) (phases::(int, int) dict). \<lparr>total = 0, phase_scores = []\<rparr>"
  have ts: "total_step = (\<lambda>(k, a) d. dict_modify k (?g k a) d)"
    by (simp add: fun_eq_iff total_step_def)
  from assms have dpp: "distinct (map fst ?pp)"
    by (simp add: wf_squads_def spec_phase_points_def o_def case_prod_unfold)
  have mp0: "map (\<lambda>(manager, phases). (manager, \<lparr>total = 0, phase_scores = []\<rparr>)) manager_squads
             = map (\<lambda>(k, a). (k, ?h k a)) ?pp"
    by (simp add: spec_phase_points_def o_def case_prod_unfold)
  have inner: "?g m (phase_scores (spec_score val phases)) \<lparr>total = 0, phase_scores = []\<rparr>
               = spec_score val phases"
    if mem: "(m, phases) \<in> set manager_squads" for m phases
  proof -
    from assms mem have dp: "distinct (map fst phases)" by (auto simp: wf_squads_def)
    have d: "distinct (map fst (phase_scores (spec_score val phases)))"
      using dp by (simp add: spec_score_def o_def case_prod_unfold)
    show ?thesis
      using fold_phase_scores_set[OF d, of "\<lparr>total = sum_list (map snd (phase_scores (spec_score val phases))), phase_scores = []\<rparr>"]
      by (simp add: spec_score_def o_def case_prod_unfold)
  qed
  have "fold total_step ?pp (map (\<lambda>(k, a). (k, ?h k a)) ?pp) =
        map (\<lambda>(k, a). (k, ?g k a (?h k a))) ?pp"
    unfolding ts by (rule fold_dict_modify_same[OF dpp])
  also have "\<dots> = map (\<lambda>(manager, phases). (manager, spec_score val phases)) manager_squads"
    using inner by (auto simp: spec_phase_points_def o_def case_prod_unfold)
  finally show ?thesis by (simp add: mp0)
qed

lemma calculate_manager_points_eq:
  assumes "wf_squads manager_squads" "phases_known phases_tbl manager_squads"
    and "manager_squads \<noteq> []" "gameweek_data \<noteq> []"
  shows "\<exists>hm hp. calculate_manager_points phases_tbl cs manager_squads gameweek_data cgw =
           Inr (map (\<lambda>(manager, phases).
                       (manager, spec_score (spec_phase_total phases_tbl cs gameweek_data) phases))
                  manager_squads,
                spec_phase_points (spec_phase_total phases_tbl cs gameweek_data) manager_squads,
                hm, hp)"
proof -
  let ?st = "\<lparr>st_manager_points = [], st_phase_points = [],
              highest_gameweek_manager = None, highest_gameweek_points = 0\<rparr>"
  let ?raw = "\<lambda>k ids. spec_raw_total gameweek_data ids (gameweeks_of phases_tbl k)"
  from assms(1) have d: "distinct (map fst manager_squads)"
    and dp: "\<forall>(manager, phases) \<in> set manager_squads. distinct (map fst phases)"
    by (auto simp: wf_squads_def)
  from fold_err_manager_step[OF d _ _ dp assms(2), of ?st gameweek_data cgw] obtain st' where
    s: "fold_err (manager_step phases_tbl gameweek_data cgw) manager_squads ?st = Inr st'"
    and p: "st_phase_points st' = spec_phase_points ?raw manager_squads"
    and m: "st_manager_points st' =
            map (\<lambda>(manager, phases). (manager, \<lparr>total = 0, phase_scores = []\<rparr>)) manager_squads"
    by auto
  have v: "(\<lambda>k ids. ?raw k ids + spec_adjustment cs k ids) = spec_phase_total phases_tbl cs gameweek_data"
    by (simp add: fun_eq_iff spec_phase_total_def)
  show ?thesis
    using assms(3,4)
    by (simp add: calculate_manager_points_def s p m Let_def
        fold_correction_step_spec[OF assms(1)] fold_total_step_spec[OF assms(1)] v)
qed

subsection \<open>Grand total and per-phase totals\<close>

lemma spec_score_total: "total (spec_score val phases) = sum_list (map snd (phase_scores (spec_score val phases)))"
  by (simp add: spec_score_def o_def case_prod_unfold)

text \<open>
  C1. For a well-formed roster whose phases are all in the phase table, both
  \<open>calculate_manager_points\<close> and the cutoff variant \<open>calculate_points_up_to_gameweek\<close>
  return a result in which every manager's grand total is the sum of that manager's own
  per-phase totals; for \<open>calculate_manager_points\<close> these are the correction-adjusted
  entries of \<open>phase_points\<close>. Every manager of the roster is present (for
  \<open>calculate_manager_points\<close>, whenever there is gameweek data at all).
\<close>

theorem grand_total_is_sum_of_phase_totals:
  assumes "wf_squads manager_squads" and "phases_known phases_tbl manager_squads"
  shows "(\<exists>mp pp hm hp.
            calculate_manager_points phases_tbl cs manager_squads gameweek_data cgw = Inr (mp, pp, hm, hp) \<and>
            (gameweek_data \<noteq> [] \<longrightarrow> map fst mp = map fst manager_squads) \<and>
            (\<forall>(manager, score) \<in> set mp.
               total score = sum_list (map snd (phase_scores score)) \<and>
               map_of pp manager = Some (phase_scores score))) \<and>
         (\<exists>mp. calculate_points_up_to_gameweek phases_tbl cs manager_squads gameweek_data lim = Inr mp \<and>
            map fst mp = map fst manager_squads \<and>
            (\<forall>(manager, score) \<in> set mp. total score = sum_list (map snd (phase_scores score))))"
proof (intro conjI)
  show "\<exists>mp pp hm hp.
          calculate_manager_points phases_tbl cs manager_squads gameweek_data cgw = Inr (mp, pp, hm, hp) \<and>
          (gameweek_data \<noteq> [] \<longrightarrow> map fst mp = map fst manager_squads) \<and>
          (\<forall>(manager, score) \<in> set mp.
             total score = sum_list (map snd (phase_scores score)) \<and>
             map_of pp manager = Some (phase_scores score))"
  proof (cases "manager_squads = [] \<or> gameweek_data = []")
    case True
    then show ?thesis by (auto simp: calculate_manager_points_def)
  next
    case False
    let ?V = "spec_phase_total phases_tbl cs gameweek_data"
    from False calculate_manager_points_eq[OF assms, of gameweek_data cs cgw] obtain hm hp where
      r: "calculate_manager_points phases_tbl cs manager_squads gameweek_data cgw =
          Inr (map (\<lambda>(manager, phases). (manager, spec_score ?V phases)) manager_squads,
               spec_phase_points ?V manager_squads, hm, hp)"
      by auto
    from assms(1) have d: "distinct (map fst (spec_phase_points ?V manager_squads))"
      by (simp add: wf_squads_def spec_phase_points_def o_def case_prod_unfold)
    have look: "map_of (spec_phase_points ?V manager_squads) m = Some (phase_scores (spec_score ?V phases))"
      if "(m, phases) \<in> set manager_squads" for m phases
      using that d by (force simp: spec_phase_points_def intro: map_of_is_SomeI)
    show ?thesis
      using look by (auto simp: r spec_score_total o_def case_prod_unfold)
  qed
next
  let ?V = "spec_cutoff_total phases_tbl cs gameweek_data lim"
  show "\<exists>mp. calculate_points_up_to_gameweek phases_tbl cs manager_squads gameweek_data lim = Inr mp \<and>
          map fst mp = map fst manager_squads \<and>
          (\<forall>(manager, score) \<in> set mp. total score = sum_list (map snd (phase_scores score)))"
    by (auto simp: calculate_points_up_to_gameweek_eq[OF assms] spec_score_total o_def case_prod_unfold)
qed

lemma example_wf: "wf_squads example_squads"
  by (simp add: wf_squads_def example_squads_def)

lemma example_known: "phases_known PHASES example_squads"
  by (simp add: phases_known_def example_squads_def PHASES_def)

theorem grand_total_is_sum_of_phase_totals_witness:
  "wf_squads example_squads \<and> phases_known PHASES example_squads \<and>
   (\<exists>mp pp hm hp.
      calculate_manager_points PHASES POINT_CORRECTIONS example_squads example_gameweek_data 2
        = Inr (mp, pp, hm, hp) \<and> map fst mp = [''Alice'']) \<and>
   (\<exists>mp. calculate_points_up_to_gameweek PHASES POINT_CORRECTIONS example_squads example_gameweek_data 1
        = Inr mp \<and> map fst mp = [''Alice''])"
proof -
  have k: "map fst example_squads = [''Alice'']" by (simp add: example_squads_def)
  have g: "example_gameweek_data \<noteq> []" by (simp add: example_gameweek_data_def)
  show ?thesis
    using grand_total_is_sum_of_phase_totals[OF example_wf example_known,
        of POINT_CORRECTIONS example_gameweek_data 2 1] example_wf example_known k g
    by auto
qed

subsection \<open>Point adjustments\<close>




subsection \<open>Missing scores and the gameweek cutoff\<close>

lemma example_two_wf: "wf_squads example_two_squads"
  by (simp add: wf_squads_def example_two_squads_def)

lemma example_two_known: "phases_known PHASES example_two_squads"
  by (simp add: phases_known_def example_two_squads_def PHASES_def)








text \<open>
  C10. In \<open>calculate_points_up_to_gameweek\<close> the total of a phase is the raw points of
  the gameweeks of that phase up to the cutoff plus every matching adjustment; the
  adjustment term does not depend on the cutoff. For a phase whose gameweeks all lie
  beyond the cutoff the total is the sum of the matching adjustments alone.
\<close>

theorem cutoff_applies_adjustments_in_full:
  assumes "wf_squads manager_squads" and "phases_known phases_tbl manager_squads"
    and "(manager, phases) \<in> set manager_squads" and "(k, ids) \<in> set phases"
  shows "\<exists>mp score v.
           calculate_points_up_to_gameweek phases_tbl cs manager_squads gameweek_data lim = Inr mp \<and>
           map_of mp manager = Some score \<and>
           map_of (phase_scores score) k = Some v \<and>
           v = spec_raw_total gameweek_data ids
                 (filter (\<lambda>gw. gw \<le> lim) (gameweeks_of phases_tbl k))
               + spec_adjustment cs k ids \<and>
           ((\<forall>gw \<in> set (gameweeks_of phases_tbl k). lim < gw) \<longrightarrow> v = spec_adjustment cs k ids)"
proof -
  let ?V = "spec_cutoff_total phases_tbl cs gameweek_data lim"
  let ?mp = "map (\<lambda>(manager, phases). (manager, spec_score ?V phases)) manager_squads"
  from assms(1) have d: "distinct (map fst ?mp)"
    by (simp add: wf_squads_def o_def case_prod_unfold)
  from assms(1,3) have dp: "distinct (map fst phases)" by (auto simp: wf_squads_def)
  have 1: "map_of ?mp manager = Some (spec_score ?V phases)"
    using assms(3) d by (force intro: map_of_is_SomeI)
  have d2: "distinct (map fst (phase_scores (spec_score ?V phases)))"
    using dp by (simp add: spec_score_def o_def case_prod_unfold)
  have 2: "map_of (phase_scores (spec_score ?V phases)) k = Some (?V k ids)"
    using assms(4) d2 by (force simp: spec_score_def intro: map_of_is_SomeI)
  have 3: "(\<forall>gw \<in> set (gameweeks_of phases_tbl k). lim < gw) \<longrightarrow>
           filter (\<lambda>gw. gw \<le> lim) (gameweeks_of phases_tbl k) = []"
    by (auto simp: filter_empty_conv)
  show ?thesis
    using 1 2 3
    by (auto simp: calculate_points_up_to_gameweek_eq[OF assms(1,2)] spec_cutoff_total_def
        spec_raw_total_def)
qed

theorem cutoff_applies_adjustments_in_full_witness:
  "wf_squads example_two_squads \<and> phases_known PHASES example_two_squads \<and>
   (''Alice'', [(4, [218, 218])]) \<in> set example_two_squads \<and>
   (4::int, [218::int, 218]) \<in> set [(4, [218, 218])] \<and>
   (\<exists>mp score.
      calculate_points_up_to_gameweek PHASES POINT_CORRECTIONS example_two_squads
        example_phase4_data 24 = Inr mp \<and>
      map_of mp ''Alice'' = Some score \<and>
      map_of (phase_scores score) 4 = Some 8)"
proof -
  have h3: "(''Alice'', [(4, [218, 218])]) \<in> set example_two_squads"
    by (simp add: example_two_squads_def)
  have h4: "(4, [218, 218]) \<in> set [(4::int, [218, 218::int])]" by simp
  have far: "\<forall>gw \<in> set (gameweeks_of PHASES 4). 24 < gw"
    by (simp add: gameweeks_of_def PHASES_def)
  have adj: "spec_adjustment POINT_CORRECTIONS 4 [218, 218] = 8"
    by (simp add: spec_adjustment_def POINT_CORRECTIONS_def)
  show ?thesis
    using cutoff_applies_adjustments_in_full[OF example_two_wf example_two_known h3 h4,
        where cs = POINT_CORRECTIONS and gameweek_data = example_phase4_data and lim = 24]
      example_two_wf example_two_known h3 far adj
    by auto
qed

subsection \<open>Positions and stable sorting\<close>

lemma length_enumerate_from: "length (enumerate_from n xs) = length xs"
  by (induction xs arbitrary: n) auto

lemma nth_enumerate_from:
  "i < length xs \<Longrightarrow> enumerate_from n xs ! i = (n + int i, xs ! i)"
proof (induction xs arbitrary: n i)
  case Nil
  then show ?case by simp
next
  case (Cons x xs)
  then show ?case by (cases i) auto
qed


lemma fold_positions:
  assumes "distinct (map fst xs)" "fst ` set xs \<inter> fst ` set acc = {}"
  shows "fold (\<lambda>(position, (manager, _)) d. dict_set manager position d) (enumerate_from n xs) acc =
         acc @ map (\<lambda>(position, (manager, _)). (manager, position)) (enumerate_from n xs)"
  using assms
proof (induction xs arbitrary: n acc)
  case Nil
  then show ?case by simp
next
  case (Cons x xs)
  obtain m s where x: "x = (m, s)" by (cases x)
  from Cons.prems x have m: "m \<notin> fst ` set acc" by auto
  have 1: "distinct (map fst xs)" using Cons.prems by simp
  have 2: "fst ` set xs \<inter> fst ` set (acc @ [(m, n)]) = {}" using Cons.prems x by auto
  show ?case using Cons.IH[OF 1 2, of "n + 1"] m by (simp add: x dict_set_append)
qed

lemma positions_of_eq:
  assumes "distinct (map fst xs)"
  shows "positions_of xs = map (\<lambda>(position, (manager, _)). (manager, position)) (enumerate_from 1 xs)"
  using fold_positions[OF assms, of "[]" 1] by (simp add: positions_of_def)

lemma positions_of_nth:
  assumes "distinct (map fst xs)" "i < length xs"
  shows "positions_of xs ! i = (fst (xs ! i), 1 + int i)"
  using assms
  by (simp add: positions_of_eq length_enumerate_from nth_enumerate_from case_prod_unfold)

lemma length_positions_of: "distinct (map fst xs) \<Longrightarrow> length (positions_of xs) = length xs"
  by (simp add: positions_of_eq length_enumerate_from)

lemma map_fst_positions_of: "distinct (map fst xs) \<Longrightarrow> map fst (positions_of xs) = map fst xs"
  by (rule nth_equalityI) (simp_all add: length_positions_of positions_of_nth)

lemma map_of_positions_of:
  assumes "distinct (map fst xs)" "i < length xs"
  shows "map_of (positions_of xs) (fst (xs ! i)) = Some (1 + int i)"
proof -
  have d: "distinct (map fst (positions_of xs))"
    using assms(1) by (simp add: map_fst_positions_of)
  have "positions_of xs ! i \<in> set (positions_of xs)"
    using assms by (simp add: length_positions_of)
  then have "(fst (xs ! i), 1 + int i) \<in> set (positions_of xs)"
    using assms by (simp add: positions_of_nth)
  then show ?thesis using d by simp
qed

lemma distinct_keys_sorted_managers:
  "distinct (map fst mp) \<Longrightarrow> distinct (map fst (sorted_managers mp))"
proof (induction mp)
  case Nil
  then show ?case by (simp add: sorted_managers_def)
next
  case (Cons x mp)
  have ins: "distinct (map fst (insort_key f a ys)) \<longleftrightarrow>
             fst a \<notin> fst ` set ys \<and> distinct (map fst ys)" for f :: "string \<times> manager_score \<Rightarrow> int" and a ys
    by (induction ys) (auto simp: set_insort_key)
  from Cons show ?case by (simp add: sorted_managers_def ins)
qed

lemma subseq_pair_nth:
  assumes "i < j" "j < length xs"
  shows "subseq [xs ! i, xs ! j] xs"
proof -
  from assms have i: "i < length xs" by simp
  have xs: "xs = (take i xs @ [xs ! i]) @ drop (Suc i) xs"
    using id_take_nth_drop[OF i] by simp
  have "drop (Suc i) xs ! (j - Suc i) = xs ! j" using assms by simp
  moreover have "j - Suc i < length (drop (Suc i) xs)" using assms by simp
  ultimately have "xs ! j \<in> set (drop (Suc i) xs)" by (metis nth_mem)
  then have b: "subseq [xs ! j] (drop (Suc i) xs)" by (simp add: subseq_singleton_left)
  have a: "subseq [xs ! i] (take i xs @ [xs ! i])" by (simp add: subseq_singleton_left)
  have "subseq ([xs ! i] @ [xs ! j]) ((take i xs @ [xs ! i]) @ drop (Suc i) xs)"
    using a b by (rule list_emb_append_mono)
  with xs show ?thesis by simp
qed

lemma subseq_pair_index:
  "subseq [a, b] xs \<Longrightarrow> \<exists>i j. i < j \<and> j < length xs \<and> xs ! i = a \<and> xs ! j = b"
proof (induction xs)
  case Nil
  then show ?case by simp
next
  case (Cons x xs)
  show ?case
  proof (cases "x = a \<and> b \<in> set xs")
    case True
    then obtain j where "j < length xs" "xs ! j = b" by (auto simp: in_set_conv_nth)
    with True have "0 < Suc j \<and> Suc j < length (x # xs) \<and> (x # xs) ! 0 = a \<and> (x # xs) ! Suc j = b"
      by simp
    then show ?thesis by blast
  next
    case False
    with Cons.prems have "subseq [a, b] xs"
      by (cases "x = a") (auto simp: subseq_singleton_left)
    from Cons.IH[OF this] obtain i j where "i < j" "j < length xs" "xs ! i = a" "xs ! j = b"
      by blast
    then have "Suc i < Suc j \<and> Suc j < length (x # xs) \<and> (x # xs) ! Suc i = a \<and> (x # xs) ! Suc j = b"
      by simp
    then show ?thesis by blast
  qed
qed

lemma stable_order_kept:
  assumes "i < j" "j < length xs" "f (xs ! i) = f (xs ! j)"
  shows "\<exists>i' j'. i' < j' \<and> j' < length xs \<and>
            sort_key f xs ! i' = xs ! i \<and> sort_key f xs ! j' = xs ! j"
proof -
  let ?P = "\<lambda>y. f y = f (xs ! i)"
  have "subseq (filter ?P [xs ! i, xs ! j]) (filter ?P xs)"
    using subseq_pair_nth[OF assms(1,2)] by (rule subseq_filter)
  then have "subseq [xs ! i, xs ! j] (filter ?P (sort_key f xs))"
    using assms(3) by (simp add: sort_key_stable)
  then have "subseq [xs ! i, xs ! j] (sort_key f xs)"
    using subseq_filter_left subseq_order.order_trans by blast
  from subseq_pair_index[OF this] show ?thesis by simp
qed

lemma index_of_key:
  assumes "distinct (map fst xs)" "i < length xs" "j < length xs" "fst (xs ! i) = fst (xs ! j)"
  shows "i = j"
  using assms by (metis distinct_conv_nth length_map nth_map)

subsection \<open>Ranks\<close>

text \<open>
  C4. For a score mapping with N managers, the standings of \<open>save_current_standings\<close>
  rank every manager, and the rank is a bijection from the managers onto 1..N. A manager
  with a larger grand total has the smaller rank, and of two managers with equal grand
  totals the one that comes first in the score mapping has the smaller rank.
  \<open>calculate_position_changes\<close> builds both of its standings in the same way from the
  scores up to the current and up to the previous gameweek.
\<close>

theorem ranks_form_a_bijection_with_stable_ties:
  assumes "distinct (map fst mp)"
  shows "bij_betw (\<lambda>m. the (map_of (standings (save_current_standings cgw mp)) m))
           (fst ` set mp) {1..int (length mp)} \<and>
         fst ` set (standings (save_current_standings cgw mp)) = fst ` set mp \<and>
         (\<forall>i j. i < j \<longrightarrow> j < length mp \<longrightarrow> total (snd (mp ! i)) = total (snd (mp ! j)) \<longrightarrow>
            the (map_of (standings (save_current_standings cgw mp)) (fst (mp ! i)))
              < the (map_of (standings (save_current_standings cgw mp)) (fst (mp ! j)))) \<and>
         (\<forall>a \<in> set mp. \<forall>b \<in> set mp. total (snd b) < total (snd a) \<longrightarrow>
            the (map_of (standings (save_current_standings cgw mp)) (fst a))
              < the (map_of (standings (save_current_standings cgw mp)) (fst b))) \<and>
         (1 < current_gw \<longrightarrow>
          calculate_points_up_to_gameweek phases_tbl cs manager_squads gameweek_data current_gw
            = Inr mp \<longrightarrow>
          calculate_points_up_to_gameweek phases_tbl cs manager_squads gameweek_data (current_gw - 1)
            = Inr previous_mp \<longrightarrow>
          calculate_position_changes phases_tbl cs manager_squads gameweek_data current_gw
            = Inr (save_current_standings current_gw mp,
                   save_current_standings (current_gw - 1) previous_mp))"
proof -
  let ?f = "\<lambda>x :: string \<times> manager_score. - total (snd x)"
  let ?xs = "sorted_managers mp"
  let ?st = "standings (save_current_standings cgw mp)"
  let ?r = "\<lambda>m. the (map_of ?st m)"
  let ?n = "length mp"
  have st: "?st = positions_of ?xs" by (simp add: save_current_standings_def)
  have xs: "?xs = sort_key ?f mp" by (simp add: sorted_managers_def)
  have len: "length ?xs = ?n" by (simp add: xs)
  have set_xs: "set ?xs = set mp" by (simp add: xs)
  have d: "distinct (map fst ?xs)" using assms by (rule distinct_keys_sorted_managers)
  have R: "?r (fst (?xs ! i)) = 1 + int i" if "i < ?n" for i
    using map_of_positions_of[OF d, of i] that len by (simp add: st)
  have idx: "\<exists>i < ?n. ?xs ! i = a" if "a \<in> set mp" for a
    using that set_xs len by (metis in_set_conv_nth)
  have inj: "inj_on ?r (fst ` set mp)"
  proof (rule inj_onI)
    fix a b assume a: "a \<in> fst ` set mp" and b: "b \<in> fst ` set mp" and e: "?r a = ?r b"
    from a obtain x where x: "x \<in> set mp" "a = fst x" by auto
    from b obtain y where y: "y \<in> set mp" "b = fst y" by auto
    from idx[OF x(1)] obtain i where i: "i < ?n" "?xs ! i = x" by blast
    from idx[OF y(1)] obtain j where j: "j < ?n" "?xs ! j = y" by blast
    from e R[OF i(1)] R[OF j(1)] i j x y have "i = j" by simp
    with i j x y show "a = b" by simp
  qed
  have img: "?r ` fst ` set mp = {1..int ?n}"
  proof (rule set_eqI, rule iffI)
    fix k assume "k \<in> ?r ` fst ` set mp"
    then obtain x where x: "x \<in> set mp" "k = ?r (fst x)" by auto
    from idx[OF x(1)] obtain i where i: "i < ?n" "?xs ! i = x" by blast
    from R[OF i(1)] i x show "k \<in> {1..int ?n}" by simp
  next
    fix k assume k: "k \<in> {1..int ?n}"
    let ?i = "nat (k - 1)"
    from k have i: "?i < ?n" by auto
    have "?xs ! ?i \<in> set mp" using i len set_xs by (metis nth_mem)
    moreover have "?r (fst (?xs ! ?i)) = k" using R[OF i] k by simp
    ultimately show "k \<in> ?r ` fst ` set mp" by (metis image_eqI)
  qed
  have A: "bij_betw ?r (fst ` set mp) {1..int ?n}"
    using inj img by (simp add: bij_betw_def)
  have B: "fst ` set ?st = fst ` set mp"
  proof -
    have "set (map fst ?st) = set (map fst ?xs)"
      by (simp only: st map_fst_positions_of[OF d])
    then show ?thesis using set_xs by simp
  qed
  have C: "?r (fst (mp ! i)) < ?r (fst (mp ! j))"
    if "i < j" "j < ?n" "total (snd (mp ! i)) = total (snd (mp ! j))" for i j
  proof -
    from that(3) have "?f (mp ! i) = ?f (mp ! j)" by simp
    from stable_order_kept[of i j mp ?f, OF that(1,2) this]
    obtain i' j' where ij: "i' < j'" "j' < ?n" "?xs ! i' = mp ! i" "?xs ! j' = mp ! j"
      by (auto simp: xs)
    from ij have "i' < ?n" by simp
    from R[OF this] R[OF ij(2)] ij show ?thesis by simp
  qed
  have D: "?r (fst a) < ?r (fst b)"
    if "a \<in> set mp" "b \<in> set mp" "total (snd b) < total (snd a)" for a b
  proof -
    from idx[OF that(1)] obtain i where i: "i < ?n" "?xs ! i = a" by blast
    from idx[OF that(2)] obtain j where j: "j < ?n" "?xs ! j = b" by blast
    have srt: "sorted (map ?f ?xs)" unfolding xs by (rule sorted_sort_key)
    have "i < j"
    proof (rule ccontr)
      assume "\<not> i < j"
      then have "j \<le> i" by simp
      with srt i len have "map ?f ?xs ! j \<le> map ?f ?xs ! i"
        by (intro sorted_nth_mono) simp_all
      with i j len that(3) show False by simp
    qed
    with R[OF i(1)] R[OF j(1)] i j show ?thesis by simp
  qed
  have E: "1 < current_gw \<longrightarrow>
          calculate_points_up_to_gameweek phases_tbl cs manager_squads gameweek_data current_gw
            = Inr mp \<longrightarrow>
          calculate_points_up_to_gameweek phases_tbl cs manager_squads gameweek_data (current_gw - 1)
            = Inr previous_mp \<longrightarrow>
          calculate_position_changes phases_tbl cs manager_squads gameweek_data current_gw
            = Inr (save_current_standings current_gw mp,
                   save_current_standings (current_gw - 1) previous_mp)"
    by (simp add: calculate_position_changes_def save_current_standings_def)
  from A B C D E show ?thesis by blast
qed

theorem ranks_form_a_bijection_with_stable_ties_witness:
  "distinct (map fst example_scores) \<and>
   standings (save_current_standings 2 example_scores) = [(''Bob'', 1), (''Alice'', 2), (''Carol'', 3)] \<and>
   bij_betw (\<lambda>m. the (map_of (standings (save_current_standings 2 example_scores)) m))
     (fst ` set example_scores) {1..int (length example_scores)}"
proof -
  have h: "distinct (map fst example_scores)" by (simp add: example_scores_def)
  have v: "standings (save_current_standings 2 example_scores)
           = [(''Bob'', 1), (''Alice'', 2), (''Carol'', 3)]"
    by (simp add: save_current_standings_def sorted_managers_def positions_of_def example_scores_def)
  show ?thesis
    using ranks_form_a_bijection_with_stable_ties[OF h, where cgw = 2] h v by blast
qed

subsection \<open>Rows of the league table\<close>














subsection \<open>Movement against the baseline\<close>




subsection \<open>Points of the most recent gameweek\<close>

lemma recent_player_loop_sum:
  "fst (recent_player_loop gameweek_data cgw players acc) =
     fst acc + spec_gw_points gameweek_data players cgw"
proof (induction players arbitrary: acc)
  case Nil
  then show ?case by (simp add: spec_gw_points_def split: option.splits)
next
  case (Cons p players)
  show ?case
    by (cases "map_of gameweek_data cgw")
       (auto simp: Cons.IH spec_gw_points_def score_or_zero_def split: option.splits)
qed

lemma fold_recent_correction_step:
  "fold (recent_correction_step current_phase players) cs acc =
     acc + spec_adjustment cs current_phase players"
  by (induction cs arbitrary: acc)
     (auto simp: recent_correction_step_def spec_adjustment_def)

lemma keys_spec_score: "fst ` set (phase_scores (spec_score val phases)) = fst ` set phases"
  by (force simp: spec_score_def)

text \<open>
  C6. With \<open>phase_points\<close> as computed by \<open>calculate_manager_points\<close> and the current
  gameweek lying in phase k, the recent-gameweek points of a manager are the scores of
  that one gameweek summed over the manager's phase-k roster, a missing score counting 0,
  plus the adjustments that match phase k and a rostered player: the gameweek lookup and
  the adjustment rule are those of the main aggregation. A manager without a phase-k
  roster gets 0.
\<close>

theorem recent_gameweek_points_of_current_phase:
  assumes "wf_squads manager_squads" and "phases_known phases_tbl manager_squads"
    and "gameweek_data \<noteq> []" and "(manager, phases) \<in> set manager_squads"
    and "cgw \<noteq> 0" and "find_current_phase phases_tbl cgw = Some k" and "k \<noteq> 0"
  shows "\<exists>mp pp hm hp.
           calculate_manager_points phases_tbl cs manager_squads gameweek_data cgw
             = Inr (mp, pp, hm, hp) \<and>
           fst (calculate_recent_gameweek_points phases_tbl cs manager_squads gameweek_data cgw
                  manager pp) =
             (case map_of phases k of
                None \<Rightarrow> 0
              | Some players \<Rightarrow>
                  spec_gw_points gameweek_data players cgw + spec_adjustment cs k players)"
proof -
  from assms(4) have ne: "manager_squads \<noteq> []" by auto
  let ?V = "spec_phase_total phases_tbl cs gameweek_data"
  let ?pp = "spec_phase_points ?V manager_squads"
  from calculate_manager_points_eq[OF assms(1,2) ne assms(3), of cs cgw]
  obtain mp hm hp where
    r: "calculate_manager_points phases_tbl cs manager_squads gameweek_data cgw
          = Inr (mp, ?pp, hm, hp)" by blast
  from assms(1) have d: "distinct (map fst manager_squads)" by (simp add: wf_squads_def)
  from assms(1) have dpp: "distinct (map fst ?pp)"
    by (simp add: wf_squads_def spec_phase_points_def o_def case_prod_unfold)
  have sq: "map_of manager_squads manager = Some phases"
    using d assms(4) by simp
  have pp: "map_of ?pp manager = Some (phase_scores (spec_score ?V phases))"
    using assms(4) dpp by (force simp: spec_phase_points_def intro: map_of_is_SomeI)
  have "fst (calculate_recent_gameweek_points phases_tbl cs manager_squads gameweek_data cgw
               manager ?pp) =
        (case map_of phases k of
           None \<Rightarrow> 0
         | Some players \<Rightarrow>
             spec_gw_points gameweek_data players cgw + spec_adjustment cs k players)"
  proof (cases "map_of phases k")
    case None
    then have "k \<notin> fst ` set phases" by (simp add: map_of_eq_None_iff)
    then show ?thesis
      using assms(5,6) None
      by (simp add: calculate_recent_gameweek_points_def pp keys_spec_score)
  next
    case (Some players)
    then have "k \<in> fst ` set phases" by (metis map_of_eq_None_iff option.distinct(1))
    then show ?thesis
      using assms(5,6,7) Some
      by (simp add: calculate_recent_gameweek_points_def pp sq keys_spec_score
          fold_recent_correction_step recent_player_loop_sum split: prod.splits)
         (metis fst_conv recent_player_loop_sum add_0)
  qed
  with r show ?thesis by blast
qed

theorem recent_gameweek_points_of_current_phase_witness:
  "wf_squads example_two_squads \<and> phases_known PHASES example_two_squads \<and>
   example_phase4_data \<noteq> [] \<and>
   (''Alice'', [(4, [218, 218])]) \<in> set example_two_squads \<and>
   (25::int) \<noteq> 0 \<and> find_current_phase PHASES 25 = Some 4 \<and> (4::int) \<noteq> 0 \<and>
   (\<exists>mp pp hm hp.
      calculate_manager_points PHASES POINT_CORRECTIONS example_two_squads example_phase4_data 25
        = Inr (mp, pp, hm, hp) \<and>
      fst (calculate_recent_gameweek_points PHASES POINT_CORRECTIONS example_two_squads
             example_phase4_data 25 ''Alice'' pp) = 20)"
proof -
  have h3: "example_phase4_data \<noteq> []" by (simp add: example_phase4_data_def)
  have h4: "(''Alice'', [(4, [218, 218])]) \<in> set example_two_squads"
    by (simp add: example_two_squads_def)
  have h5: "(25::int) \<noteq> 0" by simp
  have h6: "find_current_phase PHASES 25 = Some 4"
    by (simp add: find_current_phase_def PHASES_def)
  have h7: "(4::int) \<noteq> 0" by simp
  have v: "spec_gw_points example_phase4_data [218, 218] 25
           + spec_adjustment POINT_CORRECTIONS 4 [218, 218] = 20"
    by (simp add: spec_gw_points_def spec_adjustment_def score_or_zero_def
        example_phase4_data_def POINT_CORRECTIONS_def)
  note t = recent_gameweek_points_of_current_phase[OF example_two_wf example_two_known
      h3 h4 h5 h6 h7, where cs = POINT_CORRECTIONS]
  from t obtain mp pp hm hp where
    r: "calculate_manager_points PHASES POINT_CORRECTIONS example_two_squads example_phase4_data 25
          = Inr (mp, pp, hm, hp)"
       "fst (calculate_recent_gameweek_points PHASES POINT_CORRECTIONS example_two_squads
               example_phase4_data 25 ''Alice'' pp) =
          (case map_of [(4::int, [218::int, 218])] 4 of
             None \<Rightarrow> 0
           | Some players \<Rightarrow>
               spec_gw_points example_phase4_data players 25
               + spec_adjustment POINT_CORRECTIONS 4 players)"
    by blast
  from r(2) v have r2: "fst (calculate_recent_gameweek_points PHASES POINT_CORRECTIONS
      example_two_squads example_phase4_data 25 ''Alice'' pp) = 20" by simp
  have ex: "\<exists>mp pp hm hp.
      calculate_manager_points PHASES POINT_CORRECTIONS example_two_squads example_phase4_data 25
        = Inr (mp, pp, hm, hp) \<and>
      fst (calculate_recent_gameweek_points PHASES POINT_CORRECTIONS example_two_squads
             example_phase4_data 25 ''Alice'' pp) = 20"
  proof (intro exI conjI)
    show "calculate_manager_points PHASES POINT_CORRECTIONS example_two_squads
            example_phase4_data 25 = Inr (mp, pp, hm, hp)" by (rule r(1))
    show "fst (calculate_recent_gameweek_points PHASES POINT_CORRECTIONS example_two_squads
             example_phase4_data 25 ''Alice'' pp) = 20" by (rule r2)
  qed
  show ?thesis
    by (rule conjI[OF example_two_wf conjI[OF example_two_known conjI[OF h3 conjI[OF h4
          conjI[OF h5 conjI[OF h6 conjI[OF h7 ex]]]]]]])
qed

subsection \<open>Original squad performance\<close>







subsection \<open>Snapshot store and invariant violations\<close>












end
